theory Spec2Isabelle
  imports Main
begin

section \<open>JavaScript numbers and arrays, as far as the class uses them\<close>

text \<open>
  The fields \<open>_size\<close> and \<open>_position\<close> are JavaScript numbers. Every value the class
  computes is an integer or, after a remainder by zero, \<open>NaN\<close>; array lengths stay below
  \<open>2^32\<close>, so no rounding of doubles occurs and integers are modelled by \<open>int\<close>.
\<close>

datatype jsnum = Num int | NaN

text \<open>\<open>a + k\<close> for a number \<open>a\<close> and an integer \<open>k\<close>.\<close>

definition js_add :: "jsnum \<Rightarrow> int \<Rightarrow> jsnum" where
  "js_add a k = (case a of Num x \<Rightarrow> Num (x + k) | NaN \<Rightarrow> NaN)"

text \<open>
  \<open>a % m\<close>: the remainder takes the sign of the dividend, and a remainder by zero is
  \<open>NaN\<close> (nothing is thrown).
\<close>

definition js_rem :: "jsnum \<Rightarrow> int \<Rightarrow> jsnum" where
  "js_rem a m =
     (case a of
        NaN \<Rightarrow> NaN
      | Num x \<Rightarrow> if m = 0 then NaN else Num (sgn x * (\<bar>x\<bar> mod \<bar>m\<bar>)))"

text \<open>
  A JavaScript array is an object: a \<open>length\<close> and properties. A read of a property that
  was never written, or of a hole, gives \<open>undefined\<close>, which is \<open>None\<close> here. A write at an
  index at or beyond \<open>length\<close> extends the array; a write at a key that is no index
  (\<open>NaN\<close>, a negative number) sets a property and leaves \<open>length\<close> alone.
\<close>

record 'a js_array =
  len :: nat
  slot :: "jsnum \<Rightarrow> 'a option"

definition new_array :: "nat \<Rightarrow> 'a js_array" where
  "new_array n = \<lparr>len = n, slot = (\<lambda>k. None)\<rparr>"

definition array_of :: "'a list \<Rightarrow> 'a js_array" where
  "array_of xs =
     \<lparr>len = length xs,
      slot = (\<lambda>k. case k of
                Num i \<Rightarrow> if 0 \<le> i \<and> i < int (length xs) then Some (xs ! nat i) else None
              | NaN \<Rightarrow> None)\<rparr>"

definition arr_read :: "'a js_array \<Rightarrow> jsnum \<Rightarrow> 'a option" where
  "arr_read a k = slot a k"

definition arr_write :: "'a js_array \<Rightarrow> jsnum \<Rightarrow> 'a option \<Rightarrow> 'a js_array" where
  "arr_write a k v =
     \<lparr>len = (case k of
               Num i \<Rightarrow> if int (len a) \<le> i then nat i + 1 else len a
             | NaN \<Rightarrow> len a),
      slot = (slot a)(k := v)\<rparr>"

text \<open>\<open>a.length = 0\<close> deletes every element.\<close>

definition arr_truncate :: "'a js_array \<Rightarrow> 'a js_array" where
  "arr_truncate a =
     \<lparr>len = 0,
      slot = (\<lambda>k. case k of
                Num i \<Rightarrow> if 0 \<le> i then None else slot a k
              | NaN \<Rightarrow> slot a k)\<rparr>"

text \<open>\<open>a.slice()\<close> copies the elements and no other property.\<close>

definition arr_slice :: "'a js_array \<Rightarrow> 'a js_array" where
  "arr_slice a =
     \<lparr>len = len a,
      slot = (\<lambda>k. case k of
                Num i \<Rightarrow> if 0 \<le> i \<and> i < int (len a) then slot a k else None
              | NaN \<Rightarrow> None)\<rparr>"

section \<open>The class \<open>CircularBuffer\<close>\<close>

datatype error = RangeError

record 'a circular_buffer =
  f_buffer :: "'a js_array"
  f_size :: int
  f_position :: jsnum

definition from_iterable :: "'a list \<Rightarrow> 'a circular_buffer" where
  "from_iterable iterable =
     (let buffer = array_of iterable
      in \<lparr>f_buffer = buffer, f_size = int (len buffer), f_position = Num 0\<rparr>)"

definition withCapacity :: "nat \<Rightarrow> 'a circular_buffer" where
  "withCapacity capacity = \<lparr>f_buffer = new_array capacity, f_size = 0, f_position = Num 0\<rparr>"

definition size_cb :: "'a circular_buffer \<Rightarrow> int" where
  "size_cb b = f_size b"

definition capacity :: "'a circular_buffer \<Rightarrow> nat" where
  "capacity b = len (f_buffer b)"

text \<open>The loop of \<open>push\<close>, from the counter \<open>i\<close> on; \<open>cap\<close> is the length read before it.\<close>

fun push_loop :: "jsnum \<Rightarrow> int \<Rightarrow> int \<Rightarrow> int \<Rightarrow> 'a list \<Rightarrow> 'a js_array \<Rightarrow> 'a js_array" where
  "push_loop pos sz cap i [] a = a"
| "push_loop pos sz cap i (x # xs) a =
     push_loop pos sz cap (i + 1) xs
       (arr_write a (js_rem (js_add pos (sz + i)) cap) (Some x))"

definition push :: "'a circular_buffer \<Rightarrow> 'a list \<Rightarrow> 'a circular_buffer" where
  "push b items =
     (let cap = int (len (f_buffer b));
          buffer = push_loop (f_position b) (f_size b) cap 0 items (f_buffer b);
          overlap = max (f_size b + int (length items) - cap) 0
      in \<lparr>f_buffer = buffer,
          f_size = min (f_size b + int (length items)) cap,
          f_position = js_rem (js_add (f_position b) overlap) cap\<rparr>)"

definition pop :: "'a circular_buffer \<Rightarrow> 'a option \<times> 'a circular_buffer" where
  "pop b =
     (if f_size b = 0 then (None, b)
      else (arr_read (f_buffer b) (js_add (f_position b) (f_size b - 1)),
            b\<lparr>f_size := f_size b - 1\<rparr>))"

definition shift :: "'a circular_buffer \<Rightarrow> 'a option \<times> 'a circular_buffer" where
  "shift b =
     (if f_size b = 0 then (None, b)
      else (arr_read (f_buffer b) (f_position b),
            b\<lparr>f_position := js_rem (js_add (f_position b) 1) (int (len (f_buffer b))),
              f_size := f_size b - 1\<rparr>))"

definition set_cb :: "'a circular_buffer \<Rightarrow> int \<Rightarrow> 'a \<Rightarrow> error + 'a circular_buffer" where
  "set_cb b index item =
     (if index \<le> - f_size b \<or> index \<ge> f_size b then Inl RangeError
      else
        let boundedIndex = (if index < 0 then f_size b + index else index)
        in Inr (b\<lparr>f_buffer :=
                   arr_write (f_buffer b)
                     (js_rem (js_add (f_position b) boundedIndex) (int (len (f_buffer b))))
                     (Some item)\<rparr>))"

definition get :: "'a circular_buffer \<Rightarrow> int \<Rightarrow> 'a option" where
  "get b index =
     (if index \<le> - f_size b - 1 \<or> index \<ge> f_size b then None
      else
        let boundedIndex = (if index < 0 then f_size b + index else index)
        in arr_read (f_buffer b)
             (js_rem (js_add (f_position b) boundedIndex) (int (len (f_buffer b)))))"

definition clear :: "'a circular_buffer \<Rightarrow> 'a circular_buffer" where
  "clear b = \<lparr>f_buffer = arr_truncate (f_buffer b), f_size = 0, f_position = Num 0\<rparr>"

text \<open>The loop of \<open>resize\<close>: \<open>newBuffer[i] = this.get(i)\<close> for the counters of the list.\<close>

fun resize_loop :: "'a circular_buffer \<Rightarrow> nat list \<Rightarrow> 'a js_array \<Rightarrow> 'a js_array" where
  "resize_loop b [] a = a"
| "resize_loop b (i # ks) a = resize_loop b ks (arr_write a (Num (int i)) (get b (int i)))"

definition resize :: "'a circular_buffer \<Rightarrow> nat \<Rightarrow> 'a circular_buffer" where
  "resize b newCapacity =
     (let newBuffer = new_array newCapacity;
          newSize = min (f_size b) (int newCapacity);
          newBuffer' = resize_loop b [0 ..< nat newSize] newBuffer
      in \<lparr>f_buffer = newBuffer', f_size = newSize, f_position = Num 0\<rparr>)"

definition clone :: "'a circular_buffer \<Rightarrow> 'a circular_buffer" where
  "clone b = \<lparr>f_buffer = arr_slice (f_buffer b), f_size = f_size b, f_position = f_position b\<rparr>"

text \<open>
  The iterator: it calls \<open>get\<close> at the indices \<open>0, 1, ...\<close> while the index is below
  \<open>_size\<close>. On a buffer that is not changed meanwhile it yields this list.
\<close>

definition iterate :: "'a circular_buffer \<Rightarrow> 'a option list" where
  "iterate b = map (\<lambda>i. get b (int i)) [0 ..< nat (f_size b)]"

section \<open>Invariants, operations and reachable buffers\<close>

text \<open>
  The invariants of the data model: \<open>0 \<le> size \<le> capacity\<close> (so a capacity of 0 forces
  a size of 0), and \<open>0 \<le> position < capacity\<close> when the capacity is positive.
\<close>

definition invariants :: "'a circular_buffer \<Rightarrow> bool" where
  "invariants b \<longleftrightarrow>
     0 \<le> f_size b \<and> f_size b \<le> int (capacity b)
     \<and> (capacity b = 0
        \<or> (case f_position b of Num p \<Rightarrow> 0 \<le> p \<and> p < int (capacity b) | NaN \<Rightarrow> False))"

text \<open>
  Every logical element holds a value: the traversal yields no \<open>undefined\<close>. The
  elements a caller passes to \<open>from\<close>, \<open>push\<close> and \<open>set\<close> are values of the type
  parameter \<open>T\<close>, here \<open>'a\<close>; \<open>undefined\<close> is not one of them.
\<close>

definition filled :: "'a circular_buffer \<Rightarrow> bool" where
  "filled b \<longleftrightarrow> None \<notin> set (iterate b)"

text \<open>The last \<open>c\<close> elements of a list (all of it when it has fewer).\<close>

definition last_n :: "nat \<Rightarrow> 'a list \<Rightarrow> 'a list" where
  "last_n c xs = drop (length xs - c) xs"

text \<open>
  The public methods as operations, and the buffer a call leaves behind (for \<open>clone\<close>,
  the buffer it returns). A \<open>set\<close> that throws leaves the buffer as it was; \<open>get\<close> and
  the iterator assign no field.
\<close>

datatype 'a operation =
  Push "'a list" | Pop | Shift | Set int 'a | Get int | Clear | Resize nat | Clone | Iterate

fun exec :: "'a operation \<Rightarrow> 'a circular_buffer \<Rightarrow> 'a circular_buffer" where
  "exec (Push items) b = push b items"
| "exec Pop b = snd (pop b)"
| "exec Shift b = snd (shift b)"
| "exec (Set i v) b = (case set_cb b i v of Inl e \<Rightarrow> b | Inr b' \<Rightarrow> b')"
| "exec (Get i) b = b"
| "exec Clear b = clear b"
| "exec (Resize n) b = resize b n"
| "exec Clone b = clone b"
| "exec Iterate b = b"

fun is_resize :: "'a operation \<Rightarrow> bool" where
  "is_resize (Resize n) = True"
| "is_resize _ = False"

definition run :: "'a operation list \<Rightarrow> 'a circular_buffer \<Rightarrow> 'a circular_buffer" where
  "run ops b = fold exec ops b"

text \<open>
  The constructor is private: a buffer exists only as the result of a factory method
  followed by calls of public methods.
\<close>

inductive reachable :: "'a circular_buffer \<Rightarrow> bool" where
  from_iterable: "reachable (from_iterable xs)"
| withCapacity: "reachable (withCapacity n)"
| step: "reachable b \<Longrightarrow> reachable (exec op b)"

section \<open>Evaluation on concrete buffers\<close>

lemmas cb_defs =
  from_iterable_def withCapacity_def size_cb_def capacity_def push_def pop_def shift_def
  set_cb_def get_def clear_def resize_def clone_def iterate_def
  new_array_def array_of_def arr_read_def arr_write_def arr_truncate_def arr_slice_def
  js_add_def js_rem_def Let_def

section \<open>The invariants are preserved\<close>

lemma js_rem_nonneg: "0 \<le> x \<Longrightarrow> 0 < m \<Longrightarrow> js_rem (Num x) m = Num (x mod m)"
  by (simp add: js_rem_def sgn_if)

lemma js_rem_zero: "js_rem a 0 = NaN"
  by (simp add: js_rem_def split: jsnum.splits)

lemma js_rem_below:
  assumes "js_rem a (int n) = Num r"
  shows "r < int n"
proof (cases a)
  case (Num x)
  with assms have n0: "n \<noteq> 0" and r: "r = sgn x * (\<bar>x\<bar> mod int n)"
    by (auto simp: js_rem_def split: if_splits)
  have "0 \<le> \<bar>x\<bar> mod int n" and "\<bar>x\<bar> mod int n < int n"
    using n0 by simp_all
  then show ?thesis
    using r by (cases "x = 0"; cases "0 < x"; simp)
next
  case NaN
  with assms show ?thesis by (simp add: js_rem_def)
qed

lemma len_write_rem: "len a = n \<Longrightarrow> len (arr_write a (js_rem k (int n)) v) = n"
  by (cases "js_rem k (int n)") (auto simp: arr_write_def dest: js_rem_below)

lemma len_push_loop: "len a = n \<Longrightarrow> len (push_loop pos sz (int n) i xs a) = n"
  by (induction xs arbitrary: i a) (simp_all add: len_write_rem)

lemma capacity_push: "capacity (push b items) = capacity b"
  by (simp add: capacity_def push_def Let_def len_push_loop)

lemma size_push: "f_size (push b items) = min (f_size b + int (length items)) (int (capacity b))"
  by (simp add: capacity_def push_def Let_def)

lemma invariants_push: "invariants b \<Longrightarrow> invariants (push b items)"
  unfolding invariants_def capacity_push size_push
  by (auto simp: push_def Let_def capacity_def js_add_def js_rem_nonneg split: jsnum.splits)

lemma invariants_pop: "invariants b \<Longrightarrow> invariants (snd (pop b))"
  by (auto simp: invariants_def pop_def capacity_def split: jsnum.splits)

lemma invariants_shift: "invariants b \<Longrightarrow> invariants (snd (shift b))"
  by (auto simp: invariants_def shift_def capacity_def js_add_def js_rem_nonneg split: jsnum.splits)

lemma capacity_set_cb: "set_cb b i v = Inr b' \<Longrightarrow> capacity b' = capacity b"
  by (auto simp: set_cb_def capacity_def Let_def len_write_rem split: if_splits)

lemma invariants_set_cb: "invariants b \<Longrightarrow> set_cb b i v = Inr b' \<Longrightarrow> invariants b'"
  by (auto simp: invariants_def set_cb_def Let_def capacity_def len_write_rem
        split: if_splits jsnum.splits)

lemma invariants_clear: "invariants (clear b)"
  by (simp add: invariants_def clear_def capacity_def arr_truncate_def)

lemma len_resize_loop: "\<forall>k \<in> set ks. k < len a \<Longrightarrow> len (resize_loop b ks a) = len a"
  by (induction ks arbitrary: a) (simp_all add: arr_write_def)

lemma capacity_resize: "capacity (resize b n) = n"
proof -
  have "\<forall>k \<in> set [0 ..< nat (min (f_size b) (int n))]. k < len (new_array n :: 'a js_array)"
    by (auto simp: new_array_def)
  then have "len (resize_loop b [0 ..< nat (min (f_size b) (int n))] (new_array n)) = n"
    by (simp add: len_resize_loop new_array_def)
  then show ?thesis
    by (simp add: capacity_def resize_def Let_def)
qed

lemma invariants_resize: "invariants b \<Longrightarrow> invariants (resize b n)"
  unfolding invariants_def capacity_resize
  by (auto simp: resize_def Let_def split: jsnum.splits)

lemma invariants_clone: "invariants b \<Longrightarrow> invariants (clone b)"
  by (auto simp: invariants_def clone_def capacity_def arr_slice_def split: jsnum.splits)

lemma invariants_from_iterable: "invariants (from_iterable xs)"
  by (simp add: invariants_def from_iterable_def capacity_def array_of_def Let_def)

lemma invariants_withCapacity: "invariants (withCapacity n)"
  by (auto simp: invariants_def withCapacity_def capacity_def new_array_def)

lemma invariants_exec: "invariants b \<Longrightarrow> invariants (exec op b)"
  by (cases op)
     (auto simp: invariants_push invariants_pop invariants_shift invariants_clear
        invariants_resize invariants_clone
        intro: invariants_set_cb split: sum.splits)

lemma reachable_invariants: "reachable b \<Longrightarrow> invariants b"
  by (induction rule: reachable.induct)
     (simp_all add: invariants_from_iterable invariants_withCapacity invariants_exec)

section \<open>Reading a buffer after \<open>push\<close>\<close>

lemma mod_add_inj:
  fixes p c j k :: int
  assumes "0 \<le> j" "j < c" "0 \<le> k" "k < c"
  shows "((p + j) mod c = (p + k) mod c) = (j = k)"
proof
  assume "(p + j) mod c = (p + k) mod c"
  then have "c dvd (p + j) - (p + k)"
    by (simp add: mod_eq_dvd_iff)
  then have d: "c dvd j - k" by simp
  show "j = k"
  proof (rule ccontr)
    assume "j \<noteq> k"
    then have "j - k \<noteq> 0" by simp
    with d have "\<bar>c\<bar> \<le> \<bar>j - k\<bar>" by (rule dvd_imp_le_int[rotated])
    with assms show False by linarith
  qed
qed simp

lemma length_iterate: "length (iterate b) = nat (f_size b)"
  by (simp add: iterate_def)

lemma nth_iterate: "j < nat (f_size b) \<Longrightarrow> iterate b ! j = get b (int j)"
  by (simp add: iterate_def)

lemma position_Num:
  assumes "invariants b" "0 < capacity b"
  obtains p where "f_position b = Num p" "0 \<le> p" "p < int (capacity b)"
  using assms by (auto simp: invariants_def split: jsnum.splits)

lemma get_slot:
  assumes "f_position b = Num p" "0 \<le> p" "0 < capacity b" "0 \<le> j" "j < f_size b"
  shows "get b j = slot (f_buffer b) (Num ((p + j) mod int (capacity b)))"
  using assms by (simp add: get_def arr_read_def js_add_def js_rem_nonneg capacity_def)

lemma push_one:
  assumes "f_position b = Num p" "0 \<le> p" "0 < capacity b" "0 \<le> f_size b"
  shows "push b [x] =
     \<lparr>f_buffer = arr_write (f_buffer b) (Num ((p + f_size b) mod int (capacity b))) (Some x),
      f_size = min (f_size b + 1) (int (capacity b)),
      f_position = Num ((p + max (f_size b + 1 - int (capacity b)) 0) mod int (capacity b))\<rparr>"
  using assms by (simp add: push_def Let_def js_add_def js_rem_nonneg capacity_def)

lemma get_push_one:
  assumes inv: "invariants b" and c: "0 < capacity b"
    and j: "0 \<le> j" "j < min (f_size b + 1) (int (capacity b))"
  shows "get (push b [x]) j =
     (if f_size b < int (capacity b)
      then (if j = f_size b then Some x else get b j)
      else (if j = int (capacity b) - 1 then Some x else get b (j + 1)))"
proof -
  from inv c obtain p where p: "f_position b = Num p" "0 \<le> p" "p < int (capacity b)"
    by (rule position_Num)
  from inv have s: "0 \<le> f_size b" "f_size b \<le> int (capacity b)"
    by (simp_all add: invariants_def)
  let ?c = "int (capacity b)"
  let ?s = "f_size b"
  let ?b' = "push b [x]"
  have b': "?b' =
     \<lparr>f_buffer = arr_write (f_buffer b) (Num ((p + ?s) mod ?c)) (Some x),
      f_size = min (?s + 1) ?c,
      f_position = Num ((p + max (?s + 1 - ?c) 0) mod ?c)\<rparr>"
    using p(1,2) c s(1) by (rule push_one)
  have cap': "capacity ?b' = capacity b" by (rule capacity_push)
  have pos': "f_position ?b' = Num ((p + max (?s + 1 - ?c) 0) mod ?c)"
    and size': "f_size ?b' = min (?s + 1) ?c"
    and buf': "f_buffer ?b' = arr_write (f_buffer b) (Num ((p + ?s) mod ?c)) (Some x)"
    by (simp_all add: b')
  have "0 \<le> (p + max (?s + 1 - ?c) 0) mod ?c"
    using c by simp
  with pos' have "get ?b' j =
      slot (f_buffer ?b') (Num (((p + max (?s + 1 - ?c) 0) mod ?c + j) mod int (capacity ?b')))"
    using c j by (intro get_slot) (simp_all add: cap' size')
  then have g: "get ?b' j =
      slot (arr_write (f_buffer b) (Num ((p + ?s) mod ?c)) (Some x))
        (Num (((p + max (?s + 1 - ?c) 0) mod ?c + j) mod ?c))"
    by (simp only: cap' buf')
  show ?thesis
  proof (cases "?s < ?c")
    case True
    then have m: "max (?s + 1 - ?c) 0 = 0" by simp
    have pm: "p mod ?c = p" using p by simp
    from True j have jc: "j < ?c" "j \<le> ?s" by simp_all
    have eq: "((p + j) mod ?c = (p + ?s) mod ?c) = (j = ?s)"
      using j(1) jc(1) s(1) True by (rule mod_add_inj)
    have g1: "get ?b' j = (if j = ?s then Some x else slot (f_buffer b) (Num ((p + j) mod ?c)))"
      using g by (simp add: m pm eq arr_write_def)
    show ?thesis
    proof (cases "j = ?s")
      case eq_s: True
      with g1 have "get ?b' j = Some x" by simp
      with True eq_s show ?thesis by simp
    next
      case False
      with jc have "j < ?s" by simp
      then have "get b j = slot (f_buffer b) (Num ((p + j) mod ?c))"
        using p c j(1) by (simp add: get_slot)
      with g1 False have "get ?b' j = get b j" by simp
      with True False show ?thesis by simp
    qed
  next
    case False
    with s have sc: "?s = ?c" by simp
    then have m: "max (?s + 1 - ?c) 0 = 1" by simp
    from j sc have jc: "j < ?c" by simp
    have w: "(p + ?s) mod ?c = p" using p sc by simp
    have r: "((p + 1) mod ?c + j) mod ?c = (p + (j + 1)) mod ?c"
      by (simp add: mod_simps ac_simps)
    have g2: "get ?b' j =
        (if (p + (j + 1)) mod ?c = p then Some x
         else slot (f_buffer b) (Num ((p + (j + 1)) mod ?c)))"
      using g by (simp add: m r w arr_write_def)
    show ?thesis
    proof (cases "j = ?c - 1")
      case True
      then have "(p + (j + 1)) mod ?c = p" using p by simp
      with g2 have "get ?b' j = Some x" by simp
      with False True show ?thesis by simp
    next
      case F2: False
      with jc j have j1: "0 \<le> j + 1" "j + 1 < ?c" by simp_all
      have "((p + (j + 1)) mod ?c = (p + 0) mod ?c) = (j + 1 = 0)"
        using j1 c by (intro mod_add_inj) simp_all
      then have ne: "(p + (j + 1)) mod ?c \<noteq> p" using p j(1) by simp
      have "get b (j + 1) = slot (f_buffer b) (Num ((p + (j + 1)) mod ?c))"
        using p c j1 sc by (simp add: get_slot)
      with g2 ne have "get ?b' j = get b (j + 1)" by simp
      with False F2 show ?thesis by simp
    qed
  qed
qed


lemma last_n_snoc: "last_n c (last_n c ys @ [z]) = last_n c (ys @ [z])"
  by (cases "length ys \<le> c") (auto simp: last_n_def Suc_diff_le)

lemma iterate_size_zero: "f_size b = 0 \<Longrightarrow> iterate b = []"
  by (simp add: iterate_def)

lemma iterate_push_one:
  assumes inv: "invariants b"
  shows "iterate (push b [x]) = last_n (capacity b) (iterate b @ [Some x])"
proof (cases "capacity b = 0")
  case True
  with inv have "f_size b = 0" by (simp add: invariants_def)
  with True have "f_size (push b [x]) = 0" by (simp add: size_push)
  then have "iterate (push b [x]) = []" by (rule iterate_size_zero)
  with True show ?thesis by (simp add: last_n_def)
next
  case False
  then have c: "0 < capacity b" by simp
  from inv have s: "0 \<le> f_size b" "f_size b \<le> int (capacity b)"
    by (simp_all add: invariants_def)
  let ?c = "capacity b"
  let ?s = "f_size b"
  show ?thesis
  proof (rule nth_equalityI)
    show "length (iterate (push b [x])) = length (last_n ?c (iterate b @ [Some x]))"
      using s by (simp add: length_iterate size_push last_n_def)
  next
    fix j
    assume "j < length (iterate (push b [x]))"
    then have jn: "j < nat (f_size (push b [x]))"
      by (simp only: length_iterate)
    then have j: "int j < min (?s + 1) (int ?c)"
      unfolding size_push list.size by linarith
    have g: "get (push b [x]) (int j) =
       (if ?s < int ?c
        then (if int j = ?s then Some x else get b (int j))
        else (if int j = int ?c - 1 then Some x else get b (int j + 1)))"
      using inv c _ j by (rule get_push_one) simp
    show "iterate (push b [x]) ! j = last_n ?c (iterate b @ [Some x]) ! j"
    proof (cases "?s < int ?c")
      case True
      then have d: "last_n ?c (iterate b @ [Some x]) = iterate b @ [Some x]"
        using s by (simp add: last_n_def length_iterate)
      from True j have "j \<le> nat ?s" by simp
      then show ?thesis
        using True s g jn
        by (cases "j = nat ?s") (auto simp: d nth_iterate nth_append length_iterate)
    next
      case False
      with s have sc: "?s = int ?c" by simp
      then have d: "last_n ?c (iterate b @ [Some x]) = drop 1 (iterate b @ [Some x])"
        by (simp add: last_n_def length_iterate)
      from j sc have jc: "j < ?c" by simp
      have "drop 1 (iterate b @ [Some x]) ! j = (iterate b @ [Some x]) ! (1 + j)"
        by (rule nth_drop) simp
      then have dn: "last_n ?c (iterate b @ [Some x]) ! j = (iterate b @ [Some x]) ! (j + 1)"
        by (simp only: d add.commute)
      show ?thesis
      proof (cases "j + 1 = ?c")
        case True
        then have "int j = int ?c - 1" by simp
        with g False have "get (push b [x]) (int j) = Some x" by simp
        moreover have "(iterate b @ [Some x]) ! (j + 1) = Some x"
          using True sc by (simp add: nth_append length_iterate)
        ultimately show ?thesis using jn by (simp add: dn nth_iterate)
      next
        case F2: False
        with jc have j1: "j + 1 < ?c" by simp
        then have "int j \<noteq> int ?c - 1" by linarith
        with g False have "get (push b [x]) (int j) = get b (int j + 1)" by simp
        moreover have "(iterate b @ [Some x]) ! (j + 1) = get b (int (j + 1))"
          using j1 sc by (simp add: nth_append length_iterate nth_iterate)
        ultimately show ?thesis using jn by (simp add: dn nth_iterate add.commute)
      qed
    qed
  qed
qed

lemma push_loop_append:
  "push_loop pos sz cap i (xs @ ys) a =
   push_loop pos sz cap (i + int (length xs)) ys (push_loop pos sz cap i xs a)"
  by (induction xs arbitrary: i a) (simp_all add: add.assoc add.commute)

lemma js_rem_add_rem:
  assumes "0 \<le> p" "0 \<le> a" "0 \<le> k" "0 \<le> c"
  shows "js_rem (js_add (js_rem (js_add (Num p) a) c) k) c = js_rem (js_add (Num p) (a + k)) c"
proof (cases "c = 0")
  case True
  then show ?thesis by (simp add: js_rem_zero)
next
  case False
  with assms have c: "0 < c" by simp
  show ?thesis
    using assms c by (simp add: js_add_def js_rem_nonneg mod_simps add.assoc)
qed

lemma js_rem_add_rem_position:
  assumes inv: "invariants b" and "0 \<le> a" "0 \<le> k"
  shows "js_rem (js_add (js_rem (js_add (f_position b) a) (int (len (f_buffer b)))) k)
           (int (len (f_buffer b)))
         = js_rem (js_add (f_position b) (a + k)) (int (len (f_buffer b)))"
proof (cases "len (f_buffer b) = 0")
  case True
  then show ?thesis by (simp add: js_rem_zero)
next
  case False
  with inv obtain p where p: "f_position b = Num p" "0 \<le> p"
    by (auto simp: invariants_def capacity_def split: jsnum.splits)
  show ?thesis
    unfolding p(1) using p(2) assms(2,3) by (intro js_rem_add_rem) simp_all
qed

lemma push_snoc:
  assumes inv: "invariants b"
  shows "push b (xs @ [x]) = push (push b xs) [x]"
proof -
  let ?c = "int (len (f_buffer b))"
  let ?s = "f_size b"
  let ?n = "int (length xs)"
  let ?A = "push_loop (f_position b) ?s ?c 0 xs (f_buffer b)"
  let ?o = "max (?s + ?n - ?c) 0"
  let ?s1 = "min (?s + ?n) ?c"
  let ?o1 = "max (?s1 + 1 - ?c) 0"
  from inv have s: "0 \<le> ?s" "?s \<le> ?c"
    by (simp_all add: invariants_def capacity_def)
  have lenA: "len ?A = len (f_buffer b)"
    by (simp add: len_push_loop)
  have sum1: "?o + ?s1 = ?s + ?n" by linarith
  have sum2: "?o + ?o1 = max (?s + ?n + 1 - ?c) 0" using s by linarith
  have "js_rem (js_add (js_rem (js_add (f_position b) ?o) ?c) ?s1) ?c
           = js_rem (js_add (f_position b) (?o + ?s1)) ?c"
    using inv s by (intro js_rem_add_rem_position) simp_all
  then have key: "js_rem (js_add (js_rem (js_add (f_position b) ?o) ?c) ?s1) ?c
           = js_rem (js_add (f_position b) (?s + ?n)) ?c"
    by (simp only: sum1)
  have "js_rem (js_add (js_rem (js_add (f_position b) ?o) ?c) ?o1) ?c
           = js_rem (js_add (f_position b) (?o + ?o1)) ?c"
    using inv s by (intro js_rem_add_rem_position) simp_all
  then have pos: "js_rem (js_add (js_rem (js_add (f_position b) ?o) ?c) ?o1) ?c
           = js_rem (js_add (f_position b) (max (?s + ?n + 1 - ?c) 0)) ?c"
    by (simp only: sum2)
  have sz: "min (?s + ?n + 1) ?c = min (?s1 + 1) ?c" using s by linarith
  have L: "push b (xs @ [x]) =
      \<lparr>f_buffer = arr_write ?A (js_rem (js_add (f_position b) (?s + ?n)) ?c) (Some x),
       f_size = min (?s + ?n + 1) ?c,
       f_position = js_rem (js_add (f_position b) (max (?s + ?n + 1 - ?c) 0)) ?c\<rparr>"
    by (simp add: push_def Let_def push_loop_append ac_simps)
  have R: "push (push b xs) [x] =
      \<lparr>f_buffer = arr_write ?A (js_rem (js_add (js_rem (js_add (f_position b) ?o) ?c) ?s1) ?c)
                   (Some x),
       f_size = min (?s1 + 1) ?c,
       f_position = js_rem (js_add (js_rem (js_add (f_position b) ?o) ?c) ?o1) ?c\<rparr>"
    by (simp add: push_def Let_def lenA)
  show ?thesis
    by (simp only: L R key pos sz)
qed

lemma push_nil: "invariants b \<Longrightarrow> 0 < capacity b \<Longrightarrow> push b [] = b"
  by (auto simp: push_def Let_def invariants_def capacity_def js_add_def js_rem_nonneg
        split: jsnum.splits)

lemma iterate_push_nil: "invariants b \<Longrightarrow> iterate (push b []) = iterate b"
proof (cases "capacity b = 0")
  case True
  assume "invariants b"
  with True have "f_size b = 0" by (simp add: invariants_def)
  moreover from this True have "f_size (push b []) = 0" by (simp add: size_push)
  ultimately show ?thesis by (simp add: iterate_size_zero)
next
  case False
  assume "invariants b"
  with False show ?thesis by (simp add: push_nil)
qed

lemma iterate_push:
  "invariants b \<Longrightarrow>
   iterate (push b items) = last_n (capacity b) (iterate b @ map Some items)"
proof (induction items rule: rev_induct)
  case Nil
  then have "length (iterate b) \<le> capacity b"
    by (auto simp: length_iterate invariants_def)
  with Nil show ?case
    by (simp add: iterate_push_nil last_n_def)
next
  case (snoc x xs)
  have "iterate (push b (xs @ [x])) = iterate (push (push b xs) [x])"
    using snoc.prems by (simp only: push_snoc)
  also have "\<dots> = last_n (capacity (push b xs)) (iterate (push b xs) @ [Some x])"
    using snoc.prems by (intro iterate_push_one invariants_push)
  also have "\<dots> = last_n (capacity b) (last_n (capacity b) (iterate b @ map Some xs) @ [Some x])"
    using snoc by (simp add: capacity_push)
  also have "\<dots> = last_n (capacity b) ((iterate b @ map Some xs) @ [Some x])"
    by (rule last_n_snoc)
  finally show ?case by simp
qed

section \<open>Reading a buffer after the other methods\<close>

lemma iterate_eqI:
  assumes "nat (f_size b') = length ys"
    and "\<And>j. j < length ys \<Longrightarrow> get b' (int j) = ys ! j"
  shows "iterate b' = ys"
  using assms by (intro nth_equalityI) (simp_all add: length_iterate nth_iterate)

lemma get_in_iterate: "0 \<le> j \<Longrightarrow> j < f_size b \<Longrightarrow> get b j \<in> set (iterate b)"
proof -
  assume j: "0 \<le> j" "j < f_size b"
  then have "nat j < length (iterate b)" by (simp add: length_iterate)
  then have "iterate b ! nat j \<in> set (iterate b)" by (rule nth_mem)
  with j show ?thesis by (simp add: nth_iterate)
qed

lemma get_negative: "- f_size b \<le> i \<Longrightarrow> i < 0 \<Longrightarrow> get b i = get b (f_size b + i)"
  by (simp add: get_def)

lemma get_None_outside: "i < - f_size b \<or> f_size b \<le> i \<Longrightarrow> get b i = None"
  by (auto simp: get_def)

subsection \<open>\<open>pop\<close>\<close>

lemma get_pop: "0 \<le> j \<Longrightarrow> j < f_size b - 1 \<Longrightarrow> get (snd (pop b)) j = get b j"
  by (simp add: pop_def get_def)

lemma iterate_pop: "0 \<le> f_size b \<Longrightarrow> iterate (snd (pop b)) = butlast (iterate b)"
proof (cases "f_size b = 0")
  case True
  then show ?thesis by (simp add: pop_def iterate_size_zero)
next
  case False
  assume "0 \<le> f_size b"
  with False have s: "0 < f_size b" by simp
  show ?thesis
  proof (rule iterate_eqI)
    show "nat (f_size (snd (pop b))) = length (butlast (iterate b))"
      using s by (simp add: pop_def length_iterate nat_diff_distrib)
  next
    fix j assume "j < length (butlast (iterate b))"
    then have j: "j < nat (f_size b) - 1" by (simp add: length_iterate)
    then have "get (snd (pop b)) (int j) = get b (int j)"
      by (intro get_pop) simp_all
    with j show "get (snd (pop b)) (int j) = butlast (iterate b) ! j"
      by (simp add: nth_butlast length_iterate nth_iterate)
  qed
qed

subsection \<open>\<open>shift\<close>\<close>

lemma get_shift:
  assumes inv: "invariants b" and j: "0 \<le> j" "j < f_size b - 1"
  shows "get (snd (shift b)) j = get b (j + 1)"
proof -
  from inv j have c: "0 < capacity b" by (simp add: invariants_def)
  with inv obtain p where p: "f_position b = Num p" "0 \<le> p" "p < int (capacity b)"
    by (rule position_Num)
  let ?c = "int (capacity b)"
  from j have s0: "f_size b \<noteq> 0" by simp
  have pos': "f_position (snd (shift b)) = Num ((p + 1) mod ?c)"
    using s0 p c by (simp add: shift_def js_add_def js_rem_nonneg capacity_def)
  have cap': "capacity (snd (shift b)) = capacity b"
    by (simp add: shift_def capacity_def)
  have buf': "f_buffer (snd (shift b)) = f_buffer b"
    by (simp add: shift_def)
  have size': "f_size (snd (shift b)) = f_size b - 1"
    using s0 by (simp add: shift_def)
  have "0 \<le> (p + 1) mod ?c" using c by simp
  with pos' have "get (snd (shift b)) j =
      slot (f_buffer (snd (shift b))) (Num (((p + 1) mod ?c + j) mod int (capacity (snd (shift b)))))"
    using c j by (intro get_slot) (simp_all add: cap' size')
  then have "get (snd (shift b)) j = slot (f_buffer b) (Num ((p + (j + 1)) mod ?c))"
    by (simp add: cap' buf' mod_simps ac_simps)
  moreover have "get b (j + 1) = slot (f_buffer b) (Num ((p + (j + 1)) mod ?c))"
    using p c j by (intro get_slot) simp_all
  ultimately show ?thesis by simp
qed

lemma iterate_shift:
  assumes inv: "invariants b"
  shows "iterate (snd (shift b)) = tl (iterate b)"
proof (cases "f_size b = 0")
  case True
  then show ?thesis by (simp add: shift_def iterate_size_zero)
next
  case False
  with inv have s: "0 < f_size b" by (simp add: invariants_def)
  show ?thesis
  proof (rule iterate_eqI)
    show "nat (f_size (snd (shift b))) = length (tl (iterate b))"
      using s by (simp add: shift_def length_iterate nat_diff_distrib)
  next
    fix j assume "j < length (tl (iterate b))"
    then have j: "j < nat (f_size b) - 1" by (simp add: length_iterate)
    then have "get (snd (shift b)) (int j) = get b (int j + 1)"
      using inv by (intro get_shift) simp_all
    with j show "get (snd (shift b)) (int j) = tl (iterate b) ! j"
      by (simp add: nth_tl length_iterate nth_iterate add.commute)
  qed
qed

lemma shift_value: "invariants b \<Longrightarrow> fst (shift b) = get b 0"
proof (cases "f_size b = 0")
  case True
  then show ?thesis by (simp add: shift_def get_def)
next
  case False
  assume inv: "invariants b"
  with False have s: "0 < f_size b" by (simp add: invariants_def)
  with inv have c: "0 < capacity b" by (simp add: invariants_def)
  with inv obtain p where p: "f_position b = Num p" "0 \<le> p" "p < int (capacity b)"
    by (rule position_Num)
  have "get b 0 = slot (f_buffer b) (Num ((p + 0) mod int (capacity b)))"
    using p c s by (intro get_slot) simp_all
  with p False show ?thesis by (simp add: shift_def arr_read_def)
qed

subsection \<open>\<open>set\<close>\<close>

lemma get_set_cb:
  assumes inv: "invariants b" and i: "- f_size b < i" "i < f_size b"
    and j: "0 \<le> j" "j < f_size b"
  shows "\<exists>b'. set_cb b i v = Inr b' \<and> f_size b' = f_size b
           \<and> get b' j = (if j = (if i < 0 then f_size b + i else i) then Some v else get b j)"
proof -
  let ?k = "if i < 0 then f_size b + i else i"
  let ?c = "int (capacity b)"
  from i have k: "0 \<le> ?k" "?k < f_size b" by simp_all
  from inv j have c: "0 < capacity b" and sc: "f_size b \<le> ?c" by (simp_all add: invariants_def)
  with inv obtain p where p: "f_position b = Num p" "0 \<le> p" "p < ?c"
    by (auto elim: position_Num)
  let ?b' = "b\<lparr>f_buffer := arr_write (f_buffer b) (Num ((p + ?k) mod ?c)) (Some v)\<rparr>"
  have set: "set_cb b i v = Inr ?b'"
    using i p k c by (simp add: set_cb_def Let_def js_add_def js_rem_nonneg capacity_def)
  then have cap': "capacity ?b' = capacity b" by (rule capacity_set_cb)
  have "get ?b' j = slot (f_buffer ?b') (Num ((p + j) mod int (capacity ?b')))"
    using p c j by (intro get_slot) (simp_all add: cap')
  then have "get ?b' j = slot (f_buffer ?b') (Num ((p + j) mod ?c))"
    by (simp only: cap')
  then have g: "get ?b' j =
      (if (p + j) mod ?c = (p + ?k) mod ?c then Some v
       else slot (f_buffer b) (Num ((p + j) mod ?c)))"
    by (simp add: arr_write_def)
  have eq: "((p + j) mod ?c = (p + ?k) mod ?c) = (j = ?k)"
    using j k sc by (intro mod_add_inj) linarith+
  have "get b j = slot (f_buffer b) (Num ((p + j) mod ?c))"
    using p c j by (intro get_slot) simp_all
  with g eq have "get ?b' j = (if j = ?k then Some v else get b j)" by simp
  with set show ?thesis by simp
qed

lemma set_cb_raises_iff:
  "(set_cb b i v = Inl RangeError) = (i \<le> - f_size b \<or> f_size b \<le> i)"
  by (simp add: set_cb_def Let_def)

lemma iterate_set_cb:
  assumes inv: "invariants b" and i: "- f_size b < i" "i < f_size b"
  shows "\<exists>b'. set_cb b i v = Inr b'
           \<and> iterate b' = (iterate b)[nat (if i < 0 then f_size b + i else i) := Some v]"
proof -
  let ?k = "if i < 0 then f_size b + i else i"
  from i have s: "0 < f_size b" by simp
  from inv i have "\<exists>b'. set_cb b i v = Inr b' \<and> f_size b' = f_size b
           \<and> get b' 0 = (if 0 = ?k then Some v else get b 0)"
    using s by (intro get_set_cb) simp_all
  then obtain b' where b': "set_cb b i v = Inr b'" "f_size b' = f_size b" by blast
  define k where "k = nat ?k"
  have "iterate b' = (iterate b)[k := Some v]"
  proof (rule iterate_eqI)
    show "nat (f_size b') = length ((iterate b)[k := Some v])"
      by (simp add: b' length_iterate)
  next
    fix j assume "j < length ((iterate b)[k := Some v])"
    then have j: "j < nat (f_size b)" by (simp add: length_iterate)
    with inv i have "\<exists>b''. set_cb b i v = Inr b'' \<and> f_size b'' = f_size b
           \<and> get b'' (int j) = (if int j = ?k then Some v else get b (int j))"
      by (intro get_set_cb) simp_all
    with b' have g: "get b' (int j) = (if int j = ?k then Some v else get b (int j))"
      by auto
    have "(int j = ?k) = (j = k)" using i unfolding k_def by auto
    with g have "get b' (int j) = (if j = k then Some v else get b (int j))"
      by simp
    with j show "get b' (int j) = (iterate b)[k := Some v] ! j"
      by (simp add: nth_list_update length_iterate nth_iterate)
  qed
  with b' show ?thesis unfolding k_def by blast
qed

subsection \<open>\<open>resize\<close>\<close>

lemma slot_resize_loop:
  "slot (resize_loop b ks a) (Num (int j)) =
     (if j \<in> set ks then get b (int j) else slot a (Num (int j)))"
  by (induction ks arbitrary: a) (auto simp: arr_write_def)

lemma get_resize:
  assumes j: "0 \<le> j" "j < min (f_size b) (int n)"
  shows "get (resize b n) j = get b j"
proof -
  let ?m = "min (f_size b) (int n)"
  from j have n: "0 < capacity (resize b n)" by (simp add: capacity_resize)
  have pos: "f_position (resize b n) = Num 0" and sz: "f_size (resize b n) = ?m"
    by (simp_all add: resize_def Let_def)
  have "get (resize b n) j =
      slot (f_buffer (resize b n)) (Num ((0 + j) mod int (capacity (resize b n))))"
    using n j by (intro get_slot) (simp_all add: pos sz)
  also have "\<dots> = slot (f_buffer (resize b n)) (Num (int (nat j)))"
    using j by (simp add: capacity_resize)
  also have "\<dots> = slot (resize_loop b [0 ..< nat ?m] (new_array n)) (Num (int (nat j)))"
    by (simp add: resize_def Let_def)
  also have "\<dots> = get b (int (nat j))"
    using j by (simp only: slot_resize_loop) simp
  finally show ?thesis using j by simp
qed

lemma iterate_resize: "iterate (resize b n) = take n (iterate b)"
proof (rule iterate_eqI)
  show "nat (f_size (resize b n)) = length (take n (iterate b))"
    by (simp add: resize_def Let_def length_iterate)
next
  fix j assume "j < length (take n (iterate b))"
  then have j: "j < nat (f_size b)" "j < n" by (simp_all add: length_iterate)
  then have "get (resize b n) (int j) = get b (int j)"
    by (intro get_resize) simp_all
  with j show "get (resize b n) (int j) = take n (iterate b) ! j"
    by (simp add: nth_iterate)
qed

subsection \<open>\<open>clear\<close>, \<open>clone\<close> and the factory methods\<close>

lemma iterate_clear: "iterate (clear b) = []"
  by (simp add: clear_def iterate_def)

lemma get_clone:
  assumes inv: "invariants b" and j: "0 \<le> j" "j < f_size b"
  shows "get (clone b) j = get b j"
proof -
  from inv j have c: "0 < capacity b" by (simp add: invariants_def)
  with inv obtain p where p: "f_position b = Num p" "0 \<le> p" "p < int (capacity b)"
    by (rule position_Num)
  have cap': "capacity (clone b) = capacity b"
    by (simp add: clone_def capacity_def arr_slice_def)
  have "get (clone b) j = slot (f_buffer (clone b)) (Num ((p + j) mod int (capacity (clone b))))"
    using p c j by (intro get_slot) (simp_all add: cap', simp_all add: clone_def)
  also have "\<dots> = slot (f_buffer b) (Num ((p + j) mod int (capacity b)))"
    using c by (simp add: cap', simp add: clone_def arr_slice_def capacity_def)
  also have "\<dots> = get b j"
    using p c j by (simp add: get_slot)
  finally show ?thesis .
qed

lemma iterate_clone: "invariants b \<Longrightarrow> iterate (clone b) = iterate b"
proof (rule iterate_eqI)
  show "nat (f_size (clone b)) = length (iterate b)"
    by (simp add: clone_def length_iterate)
next
  fix j assume "invariants b" and "j < length (iterate b)"
  then show "get (clone b) (int j) = iterate b ! j"
    by (simp add: length_iterate nth_iterate get_clone)
qed

lemma iterate_from_iterable: "iterate (from_iterable xs) = map Some xs"
proof (rule iterate_eqI)
  show "nat (f_size (from_iterable xs)) = length (map Some xs)"
    by (simp add: from_iterable_def array_of_def Let_def)
next
  fix j assume j: "j < length (map Some xs)"
  then have "0 \<le> int j" and "0 < int (length xs)" by auto
  then have "js_rem (Num (int j)) (int (length xs)) = Num (int j mod int (length xs))"
    by (rule js_rem_nonneg)
  with j have "js_rem (Num (int j)) (int (length xs)) = Num (int j)"
    by simp
  with j show "get (from_iterable xs) (int j) = map Some xs ! j"
    by (simp add: from_iterable_def array_of_def Let_def get_def arr_read_def js_add_def)
qed

lemma iterate_withCapacity: "iterate (withCapacity n) = []"
  by (simp add: withCapacity_def iterate_def)

section \<open>Every logical element of a reachable buffer holds a value\<close>

lemma in_set_tl: "x \<in> set (tl xs) \<Longrightarrow> x \<in> set xs"
  by (cases xs) auto

lemma filled_push: "invariants b \<Longrightarrow> filled b \<Longrightarrow> filled (push b items)"
  by (auto simp: filled_def iterate_push last_n_def dest!: in_set_dropD)

lemma filled_set_cb:
  assumes inv: "invariants b" and f: "filled b" and set: "set_cb b i v = Inr b'"
  shows "filled b'"
proof -
  from set have i: "- f_size b < i" "i < f_size b"
    by (simp_all add: set_cb_def Let_def split: if_splits)
  with inv have "\<exists>b''. set_cb b i v = Inr b''
      \<and> iterate b'' = (iterate b)[nat (if i < 0 then f_size b + i else i) := Some v]"
    by (rule iterate_set_cb)
  with set have "iterate b' = (iterate b)[nat (if i < 0 then f_size b + i else i) := Some v]"
    by auto
  with f show ?thesis
    by (auto simp: filled_def dest!: subsetD[OF set_update_subset_insert])
qed

lemma filled_exec:
  assumes inv: "invariants b" and f: "filled b"
  shows "filled (exec op b)"
proof (cases op)
  case (Push items)
  with inv f show ?thesis by (simp add: filled_push)
next
  case Pop
  from inv have "0 \<le> f_size b" by (simp add: invariants_def)
  with f Pop show ?thesis by (auto simp: filled_def iterate_pop dest: in_set_butlastD)
next
  case Shift
  with inv f show ?thesis by (auto simp: filled_def iterate_shift dest: in_set_tl)
next
  case (Set i v)
  with inv f show ?thesis by (auto split: sum.splits intro: filled_set_cb)
next
  case (Resize n)
  with f show ?thesis by (auto simp: filled_def iterate_resize dest: in_set_takeD)
next
  case Clone
  with inv f show ?thesis by (simp add: filled_def iterate_clone)
qed (use f in \<open>simp_all add: filled_def iterate_clear\<close>)

lemma reachable_filled: "reachable b \<Longrightarrow> invariants b \<and> filled b"
proof (induction rule: reachable.induct)
  case (from_iterable xs)
  show ?case by (auto simp: invariants_from_iterable filled_def iterate_from_iterable)
next
  case (withCapacity n)
  show ?case by (simp add: invariants_withCapacity filled_def iterate_withCapacity)
next
  case (step b op)
  then show ?case by (simp add: invariants_exec filled_exec)
qed

subsection \<open>A buffer of capacity 0\<close>

lemma exec_zero:
  assumes "capacity b = 0" "f_size b = 0" "\<not> is_resize op"
  shows "capacity (exec op b) = 0 \<and> f_size (exec op b) = 0"
proof (cases op)
  case (Push items)
  with assms show ?thesis by (simp add: capacity_push size_push)
next
  case (Set i v)
  with assms show ?thesis by (simp add: set_cb_def)
next
  case (Resize n)
  with assms show ?thesis by simp
qed (use assms in \<open>simp_all add: pop_def shift_def clear_def clone_def capacity_def
       arr_truncate_def arr_slice_def\<close>)

lemma run_zero:
  "capacity b = 0 \<Longrightarrow> f_size b = 0 \<Longrightarrow> \<forall>op \<in> set ops. \<not> is_resize op \<Longrightarrow>
   capacity (run ops b) = 0 \<and> f_size (run ops b) = 0"
  unfolding run_def
  by (induction ops arbitrary: b) (simp_all add: exec_zero)

subsection \<open>What \<open>pop\<close> and \<open>set\<close> do where they work\<close>

lemma pop_state:
  "f_size b \<noteq> 0 \<Longrightarrow>
   f_size (snd (pop b)) = f_size b - 1 \<and> f_position (snd (pop b)) = f_position b
   \<and> f_buffer (snd (pop b)) = f_buffer b"
  by (simp add: pop_def)

lemma pop_empty: "f_size b = 0 \<Longrightarrow> pop b = (None, b)"
  by (simp add: pop_def)

lemma pop_value_unwrapped:
  assumes "invariants b" "0 < f_size b" "f_position b = Num p"
    and "p + f_size b - 1 < int (capacity b)"
  shows "fst (pop b) = get b (f_size b - 1)"
proof -
  from assms have c: "0 < capacity b" and p: "0 \<le> p"
    by (auto simp: invariants_def)
  have "get b (f_size b - 1) = slot (f_buffer b) (Num ((p + (f_size b - 1)) mod int (capacity b)))"
    using assms(2,3) p c by (intro get_slot) simp_all
  moreover have "(p + (f_size b - 1)) mod int (capacity b) = p + (f_size b - 1)"
    using assms(2,4) p by simp
  ultimately show ?thesis
    using assms(2,3) by (simp add: pop_def arr_read_def js_add_def add_diff_eq)
qed

lemma set_get_roundtrip_accepted:
  assumes r: "reachable b" and i: "- f_size b < i" "i < f_size b"
  shows "\<exists>b'. set_cb b i v = Inr b' \<and> get b' i = Some v
     \<and> (\<forall>j. - f_size b \<le> j \<and> j < f_size b
              \<and> (if j < 0 then f_size b + j else j) \<noteq> (if i < 0 then f_size b + i else i)
            \<longrightarrow> get b' j = get b j)"
proof -
  let ?l = "\<lambda>j. if j < 0 then f_size b + j else j"
  from r have inv: "invariants b" by (rule reachable_invariants)
  from i have li: "0 \<le> ?l i" "?l i < f_size b" by simp_all
  from inv i li have "\<exists>b'. set_cb b i v = Inr b' \<and> f_size b' = f_size b
      \<and> get b' (?l i) = (if ?l i = ?l i then Some v else get b (?l i))"
    by (rule get_set_cb)
  then obtain b' where b': "set_cb b i v = Inr b'" "f_size b' = f_size b" by blast
  have at: "get b' j = (if ?l j = ?l i then Some v else get b j)"
    if j: "- f_size b \<le> j" "j < f_size b" for j
  proof -
    from j have lj: "0 \<le> ?l j" "?l j < f_size b" by simp_all
    from inv i lj have "\<exists>b''. set_cb b i v = Inr b'' \<and> f_size b'' = f_size b
      \<and> get b'' (?l j) = (if ?l j = ?l i then Some v else get b (?l j))"
      by (rule get_set_cb)
    with b' have "get b' (?l j) = (if ?l j = ?l i then Some v else get b (?l j))"
      by auto
    moreover have "get b' j = get b' (?l j)"
      using j get_negative[of b' j] by (simp add: b')
    moreover have "get b j = get b (?l j)"
      using j get_negative[of b j] by simp
    ultimately show ?thesis by simp
  qed
  from i have "get b' i = Some v" by (simp add: at)
  moreover have "\<forall>j. - f_size b \<le> j \<and> j < f_size b \<and> ?l j \<noteq> ?l i \<longrightarrow> get b' j = get b j"
    by (simp add: at)
  ultimately show ?thesis using b' by blast
qed

section \<open>The properties of the specification\<close>

text \<open>
  C1. \<open>pop\<close> is claimed to return the logically last element, the value of
  \<open>get (size - 1)\<close>, in every reachable state, also when that element's slot has wrapped
  past the end of the backing store. The code reads \<open>_buffer[_position + _size - 1]\<close>
  without the remainder by the capacity that \<open>get\<close>, \<open>set\<close> and \<open>shift\<close> apply. After
  \<open>withCapacity(3).push(1, 2, 3, 4)\<close> the buffer holds 2, 3, 4 at position 1; \<open>pop\<close>
  reads index 3, beyond the array, and returns \<open>undefined\<close> although \<open>get(2)\<close> is 4. The
  size is still decremented, so the element 4 is lost.
\<close>

theorem pop_wrapped_returns_undefined:
  "size_cb (push (withCapacity 3) [1::nat, 2, 3, 4]) = 3
   \<and> capacity (push (withCapacity 3) [1::nat, 2, 3, 4]) = 3
   \<and> f_position (push (withCapacity 3) [1::nat, 2, 3, 4]) = Num 1
   \<and> get (push (withCapacity 3) [1::nat, 2, 3, 4]) (3 - 1) = Some 4
   \<and> fst (pop (push (withCapacity 3) [1::nat, 2, 3, 4])) = None
   \<and> size_cb (snd (pop (push (withCapacity 3) [1::nat, 2, 3, 4]))) = 2"
  by (simp add: cb_defs)

text \<open>
  C2. \<open>clear\<close> is claimed to leave the capacity as it was. The code assigns
  \<open>_buffer.length = 0\<close>, which empties the backing array: the capacity of
  \<open>from([1, 2, 3])\<close> is 3 before \<open>clear\<close> and 0 after it.
\<close>

theorem clear_changes_capacity:
  "capacity (clear (from_iterable [1::nat, 2, 3])) \<noteq> capacity (from_iterable [1::nat, 2, 3])"
  by (simp add: cb_defs)

text \<open>
  C2, as amended: after \<open>clear\<close> the size is 0, the position is 0, the traversal is
  empty, and the capacity is 0 whatever it was before.
\<close>

theorem clear_resets_to_capacity_zero:
  "size_cb (clear b) = 0 \<and> f_position (clear b) = Num 0 \<and> iterate (clear b) = []
   \<and> capacity (clear b) = 0"
  by (simp add: clear_def size_cb_def iterate_def capacity_def arr_truncate_def)

text \<open>
  C3. \<open>set\<close> is claimed to raise exactly when \<open>index < -size\<close> or \<open>index \<ge> size\<close>, so
  that \<open>-size\<close> addresses the oldest element. The guard of the code is
  \<open>index <= -this._size\<close>, one more than the guard \<open>index <= -this._size - 1\<close> of \<open>get\<close>:
  on \<open>from([1, 2, 3])\<close>, \<open>get(-3)\<close> is 1 and \<open>set(-3, 9)\<close> raises \<open>RangeError\<close>.
\<close>

theorem set_rejects_minus_size:
  "size_cb (from_iterable [1::nat, 2, 3]) = 3
   \<and> get (from_iterable [1::nat, 2, 3]) (- 3) = Some 1
   \<and> set_cb (from_iterable [1::nat, 2, 3]) (- 3) 9 = Inl RangeError"
  by (simp add: cb_defs)

text \<open>
  C4. On a buffer of capacity 0, \<open>push\<close> is claimed to change nothing and to evaluate
  no remainder by zero. The code has no guard for a capacity of 0: it evaluates
  \<open>(this._position + overlap) % capacity\<close> with \<open>capacity = 0\<close>, which is \<open>NaN\<close>, and
  stores it in \<open>_position\<close>. On \<open>withCapacity(0)\<close> the position is 0 before
  \<open>push(1, 2)\<close> and \<open>NaN\<close> after it.
\<close>

theorem push_zero_capacity_moves_position:
  "capacity (withCapacity 0 :: nat circular_buffer) = 0
   \<and> \<not> (size_cb (push (withCapacity 0) [1::nat, 2]) = size_cb (withCapacity 0 :: nat circular_buffer)
        \<and> f_position (push (withCapacity 0) [1::nat, 2])
            = f_position (withCapacity 0 :: nat circular_buffer)
        \<and> capacity (push (withCapacity 0) [1::nat, 2])
            = capacity (withCapacity 0 :: nat circular_buffer))"
  by (simp add: cb_defs)

text \<open>
  C4, as amended: on a reachable buffer of capacity 0, \<open>push\<close> of any items (none
  included) leaves the size and the capacity as they were, both 0, and the traversal
  empty; nothing is thrown, and the position becomes \<open>NaN\<close>.
\<close>

theorem push_zero_capacity:
  assumes "reachable b" and "capacity b = 0"
  shows "size_cb (push b items) = size_cb b \<and> capacity (push b items) = capacity b
         \<and> iterate (push b items) = [] \<and> f_position (push b items) = NaN"
proof -
  from assms have s: "f_size b = 0"
    by (auto dest: reachable_invariants simp: invariants_def)
  with assms(2) have "f_size (push b items) = 0" by (simp add: size_push)
  moreover from this have "iterate (push b items) = []" by (rule iterate_size_zero)
  moreover have "f_position (push b items) = NaN"
    using assms(2) by (simp add: push_def Let_def capacity_def js_rem_zero)
  ultimately show ?thesis using s by (simp add: size_cb_def capacity_push)
qed

theorem push_zero_capacity_witness:
  "reachable (withCapacity 0 :: nat circular_buffer)
   \<and> capacity (withCapacity 0 :: nat circular_buffer) = 0
   \<and> size_cb (push (withCapacity 0) [1::nat, 2]) = 0
   \<and> capacity (push (withCapacity 0) [1::nat, 2]) = 0
   \<and> iterate (push (withCapacity 0) [1::nat, 2]) = []
   \<and> f_position (push (withCapacity 0) [1::nat, 2]) = NaN"
proof -
  have r: "reachable (withCapacity 0 :: nat circular_buffer)"
    by (rule reachable.withCapacity)
  have c: "capacity (withCapacity 0 :: nat circular_buffer) = 0"
    by (simp add: cb_defs)
  show ?thesis
    using push_zero_capacity [OF r c, of "[1, 2]"] r c by (simp add: cb_defs)
qed

text \<open>
  C5. For a reachable buffer of capacity \<open>c\<close> whose traversal yields \<open>old\<close> (so it holds
  \<open>length old\<close> elements) and any items, possibly none or more than \<open>c\<close>: after
  \<open>push\<close> the size is \<open>min (length old + length items) c\<close> and the traversal yields
  the last \<open>c\<close> elements of \<open>old\<close> followed by the items, oldest first.
\<close>

theorem push_keeps_last_capacity:
  assumes "reachable b"
  shows "size_cb b = int (length (iterate b))
     \<and> size_cb (push b items) = int (min (length (iterate b) + length items) (capacity b))
     \<and> iterate (push b items) = last_n (capacity b) (iterate b @ map Some items)"
proof -
  from assms have inv: "invariants b" by (rule reachable_invariants)
  then have s: "0 \<le> f_size b" by (simp add: invariants_def)
  then have "size_cb b = int (length (iterate b))"
    by (simp add: size_cb_def length_iterate)
  moreover from s have
    "size_cb (push b items) = int (min (length (iterate b) + length items) (capacity b))"
    by (simp add: size_cb_def size_push length_iterate)
  moreover from inv have
    "iterate (push b items) = last_n (capacity b) (iterate b @ map Some items)"
    by (rule iterate_push)
  ultimately show ?thesis by simp
qed

theorem push_keeps_last_capacity_witness:
  "reachable (push (withCapacity 3) [1::nat, 2])
   \<and> capacity (push (withCapacity 3) [1::nat, 2]) = 3
   \<and> iterate (push (withCapacity 3) [1::nat, 2]) = [Some 1, Some 2]
   \<and> size_cb (push (push (withCapacity 3) [1::nat, 2]) [3, 4, 5, 6, 7]) = 3
   \<and> iterate (push (push (withCapacity 3) [1::nat, 2]) [3, 4, 5, 6, 7])
       = [Some 5, Some 6, Some 7]"
proof -
  have "reachable (exec (Push [1::nat, 2]) (withCapacity 3))"
    by (intro reachable.step reachable.withCapacity)
  then have r: "reachable (push (withCapacity 3) [1::nat, 2])" by simp
  have c: "capacity (push (withCapacity 3) [1::nat, 2]) = 3"
    by (simp add: cb_defs)
  have i: "iterate (push (withCapacity 3) [1::nat, 2]) = [Some 1, Some 2]"
    by (simp add: cb_defs upt_rec)
  show ?thesis
    using push_keeps_last_capacity [OF r, of "[3, 4, 5, 6, 7]"] r c i
    by (simp add: last_n_def)
qed

text \<open>
  C6. For a reachable buffer whose traversal yields \<open>s\<close>, \<open>resize newCapacity\<close> gives a
  buffer of capacity \<open>newCapacity\<close>, size \<open>min (length s) newCapacity\<close> and position 0
  whose traversal yields the first \<open>min (length s) newCapacity\<close> elements of \<open>s\<close>: the
  oldest are kept.
\<close>

theorem resize_keeps_oldest:
  assumes "reachable b"
  shows "capacity (resize b newCapacity) = newCapacity
     \<and> size_cb (resize b newCapacity) = int (min (length (iterate b)) newCapacity)
     \<and> f_position (resize b newCapacity) = Num 0
     \<and> iterate (resize b newCapacity) = take (min (length (iterate b)) newCapacity) (iterate b)"
proof -
  from assms have "invariants b" by (rule reachable_invariants)
  then have s: "0 \<le> f_size b" by (simp add: invariants_def)
  then have "size_cb (resize b newCapacity) = int (min (length (iterate b)) newCapacity)"
    by (simp add: size_cb_def resize_def Let_def length_iterate)
  moreover have "f_position (resize b newCapacity) = Num 0"
    by (simp add: resize_def Let_def)
  moreover have "take (min (length (iterate b)) newCapacity) (iterate b)
      = take newCapacity (iterate b)"
    by (simp add: min_def)
  ultimately show ?thesis by (simp add: capacity_resize iterate_resize)
qed

theorem resize_keeps_oldest_witness:
  "reachable (push (withCapacity 3) [1::nat, 2, 3, 4])
   \<and> iterate (push (withCapacity 3) [1::nat, 2, 3, 4]) = [Some 2, Some 3, Some 4]
   \<and> capacity (resize (push (withCapacity 3) [1::nat, 2, 3, 4]) 2) = 2
   \<and> size_cb (resize (push (withCapacity 3) [1::nat, 2, 3, 4]) 2) = 2
   \<and> f_position (resize (push (withCapacity 3) [1::nat, 2, 3, 4]) 2) = Num 0
   \<and> iterate (resize (push (withCapacity 3) [1::nat, 2, 3, 4]) 2) = [Some 2, Some 3]"
proof -
  have "reachable (exec (Push [1::nat, 2, 3, 4]) (withCapacity 3))"
    by (intro reachable.step reachable.withCapacity)
  then have r: "reachable (push (withCapacity 3) [1::nat, 2, 3, 4])" by simp
  have i: "iterate (push (withCapacity 3) [1::nat, 2, 3, 4]) = [Some 2, Some 3, Some 4]"
    by (simp add: cb_defs upt_rec)
  show ?thesis
    using resize_keeps_oldest [OF r, of 2] r i by simp
qed

text \<open>
  C7. \<open>get i\<close> after \<open>set i v\<close> is claimed to return \<open>v\<close> for every index of the range
  \<open>[-size, size - 1]\<close>. At \<open>i = -size\<close> the call of \<open>set\<close> throws (the guard of C3) and
  writes nothing: after \<open>withCapacity(3).push(1, 2, 3, 4)\<close>, \<open>get(-3)\<close> is 2 and
  \<open>set(-3, 9)\<close> raises \<open>RangeError\<close>. For the indices \<open>set\<close> accepts, the round trip
  holds: lemma \<open>set_get_roundtrip_accepted\<close>.
\<close>

theorem set_get_roundtrip_fails_at_minus_size:
  "size_cb (push (withCapacity 3) [1::nat, 2, 3, 4]) = 3
   \<and> get (push (withCapacity 3) [1::nat, 2, 3, 4]) (- 3) = Some 2
   \<and> set_cb (push (withCapacity 3) [1::nat, 2, 3, 4]) (- 3) 9 = Inl RangeError
   \<and> (case set_cb (push (withCapacity 3) [1::nat, 2, 3, 4]) (- 3) 9 of
         Inl e \<Rightarrow> None
       | Inr b' \<Rightarrow> get b' (- 3)) \<noteq> Some 9"
  by (simp add: cb_defs)

text \<open>
  C8. On a reachable buffer, \<open>get i = get (i - size)\<close> for \<open>0 \<le> i \<le> size - 1\<close>; the
  index \<open>-k\<close> with \<open>1 \<le> k \<le> size\<close> reads the element of index \<open>size - k\<close>; and \<open>get\<close>
  returns \<open>undefined\<close> exactly when \<open>index < -size\<close> or \<open>index \<ge> size\<close>.
\<close>

theorem get_negative_alias:
  assumes "reachable b"
  shows "(0 \<le> i \<and> i \<le> size_cb b - 1 \<longrightarrow> get b i = get b (i - size_cb b))
     \<and> (1 \<le> k \<and> k \<le> size_cb b \<longrightarrow> get b (- k) = get b (size_cb b - k))
     \<and> ((get b i = None) = (i < - size_cb b \<or> size_cb b \<le> i))"
proof -
  from assms have f: "filled b" by (simp add: reachable_filled)
  have a: "0 \<le> i \<and> i \<le> size_cb b - 1 \<longrightarrow> get b i = get b (i - size_cb b)"
    by (simp add: size_cb_def get_def)
  have b: "1 \<le> k \<and> k \<le> size_cb b \<longrightarrow> get b (- k) = get b (size_cb b - k)"
    by (simp add: size_cb_def get_def)
  have c: "(get b i = None) = (i < - f_size b \<or> f_size b \<le> i)"
  proof (cases "i < - f_size b \<or> f_size b \<le> i")
    case True
    then show ?thesis by (simp add: get_None_outside)
  next
    case False
    define l where "l = (if i < 0 then f_size b + i else i)"
    from False have "0 \<le> l" "l < f_size b" by (simp_all add: l_def)
    then have "get b l \<in> set (iterate b)" by (rule get_in_iterate)
    with f have "get b l \<noteq> None" unfolding filled_def by metis
    moreover have "get b i = get b l"
      using False get_negative[of b i] by (simp add: l_def)
    ultimately show ?thesis using False by simp
  qed
  from a b c show ?thesis by (simp add: size_cb_def)
qed

theorem get_negative_alias_witness:
  "reachable (push (withCapacity 3) [1::nat, 2, 3, 4])
   \<and> size_cb (push (withCapacity 3) [1::nat, 2, 3, 4]) = 3
   \<and> get (push (withCapacity 3) [1::nat, 2, 3, 4]) 1 = get (push (withCapacity 3) [1, 2, 3, 4]) (1 - 3)
   \<and> get (push (withCapacity 3) [1::nat, 2, 3, 4]) (- 2) = get (push (withCapacity 3) [1, 2, 3, 4]) (3 - 2)
   \<and> get (push (withCapacity 3) [1::nat, 2, 3, 4]) 1 \<noteq> None"
proof -
  let ?B = "push (withCapacity 3) [1::nat, 2, 3, 4]"
  have "reachable (exec (Push [1::nat, 2, 3, 4]) (withCapacity 3))"
    by (intro reachable.step reachable.withCapacity)
  then have r: "reachable ?B" by simp
  have s: "size_cb ?B = 3"
    by (simp add: cb_defs)
  note t = get_negative_alias [OF r, of 1 2]
  from t have "0 \<le> (1::int) \<and> 1 \<le> size_cb ?B - 1 \<longrightarrow> get ?B 1 = get ?B (1 - size_cb ?B)"
    by (rule conjunct1)
  then have a: "get ?B 1 = get ?B (1 - 3)" unfolding s by simp
  from t have "1 \<le> (2::int) \<and> 2 \<le> size_cb ?B \<longrightarrow> get ?B (- 2) = get ?B (size_cb ?B - 2)"
    by (rule conjunct1[OF conjunct2])
  then have b: "get ?B (- 2) = get ?B (3 - 2)" unfolding s by simp
  from t have "(get ?B 1 = None) = (1 < - size_cb ?B \<or> size_cb ?B \<le> 1)"
    by (rule conjunct2[OF conjunct2])
  then have c: "get ?B 1 \<noteq> None" unfolding s by simp
  from r s a b c show ?thesis by blast
qed

text \<open>
  C9. Every buffer reachable from a factory method by public operations satisfies the
  invariants \<open>0 \<le> size \<le> capacity\<close> and \<open>0 \<le> position < capacity\<close> when the capacity
  is positive (hence a capacity of 0 forces a size of 0); every operation preserves
  them, and both factory methods establish them.
\<close>

theorem invariants_hold:
  "(reachable b \<longrightarrow>
      0 \<le> size_cb b \<and> size_cb b \<le> int (capacity b)
      \<and> (0 < capacity b \<longrightarrow> (\<exists>p. f_position b = Num p \<and> 0 \<le> p \<and> p < int (capacity b)))
      \<and> (capacity b = 0 \<longrightarrow> size_cb b = 0))
   \<and> (invariants b' \<longrightarrow> invariants (exec op b'))
   \<and> invariants (from_iterable xs)
   \<and> invariants (withCapacity n)"
proof -
  have "0 \<le> size_cb b \<and> size_cb b \<le> int (capacity b)
      \<and> (0 < capacity b \<longrightarrow> (\<exists>p. f_position b = Num p \<and> 0 \<le> p \<and> p < int (capacity b)))
      \<and> (capacity b = 0 \<longrightarrow> size_cb b = 0)"
    if "reachable b"
  proof -
    from that have "invariants b" by (rule reachable_invariants)
    then show ?thesis
      by (auto simp: invariants_def size_cb_def split: jsnum.splits)
  qed
  then show ?thesis
    by (simp add: invariants_exec invariants_from_iterable invariants_withCapacity)
qed

theorem invariants_hold_witness:
  "reachable (push (withCapacity 3) [1::nat, 2, 3, 4])
   \<and> size_cb (push (withCapacity 3) [1::nat, 2, 3, 4]) \<le> 3
   \<and> f_position (push (withCapacity 3) [1::nat, 2, 3, 4]) = Num 1
   \<and> invariants (from_iterable [1::nat, 2, 3])
   \<and> invariants (exec Shift (from_iterable [1::nat, 2, 3]))"
proof -
  let ?B = "push (withCapacity 3) [1::nat, 2, 3, 4]"
  have "reachable (exec (Push [1::nat, 2, 3, 4]) (withCapacity 3))"
    by (intro reachable.step reachable.withCapacity)
  then have r: "reachable ?B" by simp
  have c: "capacity ?B = 3"
    by (simp add: cb_defs)
  have p: "f_position ?B = Num 1"
    by (simp add: cb_defs)
  note t = invariants_hold [of ?B "from_iterable [1::nat, 2, 3]" Shift "[1::nat, 2, 3]" 0]
  from t r c have s: "size_cb ?B \<le> 3" by auto
  from t have i: "invariants (from_iterable [1::nat, 2, 3])" by blast
  with t have e: "invariants (exec Shift (from_iterable [1::nat, 2, 3]))" by blast
  from r s p i e show ?thesis by blast
qed

text \<open>
  C10. \<open>clear\<close> leaves a capacity of 0. On a reachable buffer of capacity 0, after any
  sequence of operations without \<open>resize\<close> the capacity and the size are still 0, the
  traversal is empty, \<open>get\<close> returns \<open>undefined\<close> at every index, and \<open>pop\<close> and
  \<open>shift\<close> return \<open>undefined\<close>. \<open>resize n\<close> gives the capacity \<open>n\<close>, and with \<open>n > 0\<close> a
  pushed element is held again. (With a capacity of 0, \<open>push\<close> writes each item to the
  property \<open>NaN\<close> of the backing array, which is no element and which no method reads
  while the size is 0; \<open>resize\<close> replaces the array.)
\<close>

theorem zero_capacity_stays_empty:
  "capacity (clear b0) = 0
   \<and> (reachable b \<and> capacity b = 0 \<and> (\<forall>op \<in> set ops. \<not> is_resize op) \<longrightarrow>
        capacity (run ops b) = 0 \<and> size_cb (run ops b) = 0 \<and> iterate (run ops b) = []
        \<and> get (run ops b) i = None
        \<and> fst (pop (run ops b)) = None \<and> fst (shift (run ops b)) = None)
   \<and> (reachable b \<and> capacity b = 0 \<longrightarrow>
        capacity (resize b n) = n \<and> size_cb (resize b n) = 0
        \<and> (0 < n \<longrightarrow> iterate (push (resize b n) [x]) = [Some x]))"
proof -
  have a: "capacity (clear b0) = 0"
    by (simp add: clear_def capacity_def arr_truncate_def)
  have z: "f_size b = 0" if "reachable b" "capacity b = 0"
    using that by (auto dest: reachable_invariants simp: invariants_def)
  have b: "capacity (run ops b) = 0 \<and> size_cb (run ops b) = 0 \<and> iterate (run ops b) = []
        \<and> get (run ops b) i = None
        \<and> fst (pop (run ops b)) = None \<and> fst (shift (run ops b)) = None"
    if h: "reachable b" "capacity b = 0" "\<forall>op \<in> set ops. \<not> is_resize op"
  proof -
    from h(2) z[OF h(1,2)] h(3)
    have r: "capacity (run ops b) = 0 \<and> f_size (run ops b) = 0"
      by (rule run_zero)
    then have "get (run ops b) i = None"
      by (intro get_None_outside) linarith
    with r show ?thesis
      by (simp add: size_cb_def iterate_size_zero pop_def shift_def)
  qed
  have c: "capacity (resize b n) = n \<and> size_cb (resize b n) = 0
        \<and> (0 < n \<longrightarrow> iterate (push (resize b n) [x]) = [Some x])"
    if h: "reachable b" "capacity b = 0"
  proof -
    from h have s: "f_size b = 0" by (rule z)
    have inv: "invariants (resize b n)"
      using h(1) by (intro invariants_resize reachable_invariants)
    from s have e: "iterate (resize b n) = []"
      by (simp add: iterate_resize iterate_size_zero)
    from s have "size_cb (resize b n) = 0"
      by (simp add: size_cb_def resize_def Let_def)
    moreover have "iterate (push (resize b n) [x]) = [Some x]" if "0 < n"
      using that iterate_push[OF inv, of "[x]"] by (simp add: e capacity_resize last_n_def)
    ultimately show ?thesis by (simp add: capacity_resize)
  qed
  from a b c show ?thesis by blast
qed

theorem zero_capacity_stays_empty_witness:
  "reachable (clear (from_iterable [1::nat, 2, 3]))
   \<and> capacity (clear (from_iterable [1::nat, 2, 3])) = 0
   \<and> size_cb (run [Push [4, 5], Pop, Shift, Set 0 9, Get 0, Clone, Iterate, Clear, Push [6]]
        (clear (from_iterable [1::nat, 2, 3]))) = 0
   \<and> capacity (run [Push [4, 5], Pop, Shift, Set 0 9, Get 0, Clone, Iterate, Clear, Push [6]]
        (clear (from_iterable [1::nat, 2, 3]))) = 0
   \<and> get (run [Push [4, 5], Pop, Shift, Set 0 9, Get 0, Clone, Iterate, Clear, Push [6]]
        (clear (from_iterable [1::nat, 2, 3]))) 0 = None
   \<and> capacity (resize (clear (from_iterable [1::nat, 2, 3])) 2) = 2
   \<and> iterate (push (resize (clear (from_iterable [1::nat, 2, 3])) 2) [7]) = [Some 7]"
proof -
  have "reachable (exec Clear (from_iterable [1::nat, 2, 3]))"
    by (intro reachable.step reachable.from_iterable)
  then have r: "reachable (clear (from_iterable [1::nat, 2, 3]))" by simp
  have c: "capacity (clear (from_iterable [1::nat, 2, 3])) = 0"
    by (simp add: clear_def capacity_def arr_truncate_def)
  show ?thesis
    using zero_capacity_stays_empty [of "from_iterable [1::nat, 2, 3]"
        "clear (from_iterable [1::nat, 2, 3])"
        "[Push [4, 5], Pop, Shift, Set 0 9, Get 0, Clone, Iterate, Clear, Push [6]]" 0 2 7] r c
    by simp
qed

end
